theory Spec2Isabelle
  imports Main "HOL-Library.Monad_Syntax" "HOL-Library.Multiset" "HOL-Library.Word"
begin

section \<open>The wildcard matcher (src/dump.cpp, wildcardMatch)\<close>

text \<open>
  A C++ \<^verbatim>\<open>std::string\<close> is a \<^typ>\<open>string\<close>: a list of 8-bit characters. The table
  \<^verbatim>\<open>dp\<close> is a vector of \<^verbatim>\<open>str.size() + 1\<close> rows of \<^verbatim>\<open>pattern.size() + 1\<close>
  booleans. Indexing a vector or a string outside its range is undefined behaviour in
  C++, so every read and write of the model checks its index and yields \<open>None\<close> when the
  index is out of range; the matcher then yields \<open>None\<close> as a whole. Sizes are
  \<^verbatim>\<open>size_t\<close>; the loops start at 1, so \<^verbatim>\<open>i - 1\<close> and \<^verbatim>\<open>j - 1\<close> never wrap and the
  indices are natural numbers.
\<close>

type_synonym table = "bool list list"

definition char_at :: "string \<Rightarrow> nat \<Rightarrow> char option" where
  "char_at s k = (if k < length s then Some (s ! k) else None)"

definition read_cell :: "table \<Rightarrow> nat \<Rightarrow> nat \<Rightarrow> bool option" where
  "read_cell dp i j =
     (if i < length dp \<and> j < length (dp ! i) then Some (dp ! i ! j) else None)"

definition write_cell :: "table \<Rightarrow> nat \<Rightarrow> nat \<Rightarrow> bool \<Rightarrow> table option" where
  "write_cell dp i j v =
     (if i < length dp \<and> j < length (dp ! i) then Some (dp[i := (dp ! i)[j := v]]) else None)"

text \<open>
  A counting \<^verbatim>\<open>for\<close> loop over the indices \<open>ks\<close>, threading the table through the
  body and stopping at the first undefined access.
\<close>

fun for_loop :: "nat list \<Rightarrow> (nat \<Rightarrow> 's \<Rightarrow> 's option) \<Rightarrow> 's \<Rightarrow> 's option" where
  "for_loop [] body s = Some s"
| "for_loop (k # ks) body s =
     (case body k s of None \<Rightarrow> None | Some s' \<Rightarrow> for_loop ks body s')"

text \<open>Lines 46-50: the body of the loop that fills row 0.\<close>

definition first_row_step :: "string \<Rightarrow> nat \<Rightarrow> table \<Rightarrow> table option" where
  "first_row_step pattern j dp =
     do {
       pc \<leftarrow> char_at pattern (j - 1);
       if pc = CHR ''*'' then
         do { v \<leftarrow> read_cell dp 0 (j - 1); write_cell dp 0 j v }
       else Some dp
     }"

text \<open>
  Lines 54-63: the body of the inner loop. Both \<^verbatim>\<open>||\<close> are short-circuit: the right
  operand is read only when the left one is false.
\<close>

definition fill_step :: "string \<Rightarrow> string \<Rightarrow> nat \<Rightarrow> nat \<Rightarrow> table \<Rightarrow> table option" where
  "fill_step str pattern i j dp =
     do {
       pc \<leftarrow> char_at pattern (j - 1);
       if pc = CHR ''*'' then
         do {
           a \<leftarrow> read_cell dp i (j - 1);
           if a then write_cell dp i j True
           else do { b \<leftarrow> read_cell dp (i - 1) j; write_cell dp i j b }
         }
       else if pc = CHR ''?'' then
         do { v \<leftarrow> read_cell dp (i - 1) (j - 1); write_cell dp i j v }
       else
         do {
           sc \<leftarrow> char_at str (i - 1);
           if pc = sc then
             do { v \<leftarrow> read_cell dp (i - 1) (j - 1); write_cell dp i j v }
           else write_cell dp i j False
         }
     }"

text \<open>Lines 52-65: one round of the outer loop fills row \<open>i\<close>.\<close>

definition fill_row :: "string \<Rightarrow> string \<Rightarrow> nat \<Rightarrow> table \<Rightarrow> table option" where
  "fill_row str pattern i dp =
     for_loop [1..<Suc (length pattern)] (fill_step str pattern i) dp"

text \<open>
  Lines 35-68 with the bounds checks: \<open>None\<close> stands for an out-of-range access.
\<close>

definition wildcardMatch_checked :: "string \<Rightarrow> string \<Rightarrow> bool option" where
  "wildcardMatch_checked str pattern =
     (if pattern = [] then Some (str = [])
      else
        do {
          dp0 \<leftarrow> write_cell
                  (replicate (length str + 1) (replicate (length pattern + 1) False)) 0 0 True;
          dp1 \<leftarrow> for_loop [1..<Suc (length pattern)] (first_row_step pattern) dp0;
          dp2 \<leftarrow> for_loop [1..<Suc (length str)] (fill_row str pattern) dp1;
          read_cell dp2 (length str) (length pattern)
        })"

text \<open>The value the callers see: true exactly when the run is defined and returns true.\<close>

definition wildcardMatch :: "string \<Rightarrow> string \<Rightarrow> bool" where
  "wildcardMatch str pattern = (wildcardMatch_checked str pattern = Some True)"

text \<open>
  The matching semantics in the words of the specification, to be compared with the
  table above. A pattern matches a text when the text can be cut into consecutive
  pieces, one for each pattern character, in order: the piece of \<open>*\<close> is any string,
  also the empty one; the piece of \<open>?\<close> is exactly one character; the piece of any
  other character is that character alone. The pieces make up the entire text, so an
  empty pattern matches only the empty text.
\<close>

definition piece_ok :: "char \<Rightarrow> string \<Rightarrow> bool" where
  "piece_ok pc piece =
     (if pc = CHR ''*'' then True
      else if pc = CHR ''?'' then length piece = 1
      else piece = [pc])"

definition pattern_matches :: "string \<Rightarrow> string \<Rightarrow> bool" where
  "pattern_matches text pattern =
     (\<exists>pieces. list_all2 piece_ok pattern pieces \<and> concat pieces = text)"

text \<open>Lines 73-80.\<close>

fun matchesAnyPattern :: "string \<Rightarrow> string list \<Rightarrow> bool" where
  "matchesAnyPattern filename [] = False"
| "matchesAnyPattern filename (pat # patterns) =
     (if wildcardMatch filename pat then True else matchesAnyPattern filename patterns)"

section \<open>The text classifier (isTextFile)\<close>

text \<open>
  A file's bytes are C++ \<^verbatim>\<open>char\<close>s; line 98 casts each one to \<^verbatim>\<open>unsigned char\<close>,
  an 8-bit word compared without sign.
\<close>

definition uchar :: "char \<Rightarrow> 8 word" where
  "uchar c = of_char c"

definition CHUNK_SIZE :: nat where
  "CHUNK_SIZE = 1024"

text \<open>Lines 97-111: the loop over the \<^verbatim>\<open>bytesRead\<close> bytes of the buffer.\<close>

fun scan_bytes :: "string \<Rightarrow> bool" where
  "scan_bytes [] = True"
| "scan_bytes (b # buffer) =
     (let c = uchar b in
      if c = 0 then False
      else if c < 9 \<or> (c > 13 \<and> c < 32) then False
      else scan_bytes buffer)"

text \<open>
  Lines 86-112. The argument is what opening the path in binary mode gives: \<open>None\<close>
  when the stream is not open, the file's bytes otherwise. \<^verbatim>\<open>fin.read\<close> fills the
  buffer with the first \<open>CHUNK_SIZE\<close> bytes, or with the whole file when it is shorter,
  and \<^verbatim>\<open>gcount\<close> is the number of bytes it read.
\<close>

definition isTextFile :: "string option \<Rightarrow> bool" where
  "isTextFile opened_file =
     (case opened_file of
        None \<Rightarrow> False
      | Some bytes \<Rightarrow> scan_bytes (take CHUNK_SIZE bytes))"

section \<open>Loading the ignore file (loadGitignorePatterns)\<close>

text \<open>
  What the program finds at \<^verbatim>\<open>directory / ".gitignore"\<close>: nothing (line 121), a
  file whose stream does not open (line 124), or a file with its content.
\<close>

datatype gitignore = Missing | Unopenable | Readable string

definition newline :: char where
  "newline = CHR 0x0A"

text \<open>
  \<^verbatim>\<open>std::getline\<close>: at the end of the input it extracts nothing and fails; otherwise
  it yields the characters before the next newline and leaves the stream after that
  newline (or at the end of the input when there is none).
\<close>

definition getline :: "string \<Rightarrow> (string \<times> string) option" where
  "getline input =
     (if input = [] then None
      else Some (takeWhile (\<lambda>c. c \<noteq> newline) input,
                 drop 1 (dropWhile (\<lambda>c. c \<noteq> newline) input)))"

text \<open>
  The lines that the calls of \<^verbatim>\<open>std::getline\<close> in the loop condition of line 127
  yield, one after the other, until it fails.
\<close>

function read_lines :: "string \<Rightarrow> string list" where
  "read_lines input =
     (case getline input of
        None \<Rightarrow> []
      | Some (line, rest) \<Rightarrow> line # read_lines rest)"
  by pat_completeness auto
termination
proof (relation "measure length")
  show "wf (measure length)" by simp
next
  fix input :: string and x2 line rest
  assume "getline input = Some x2" "(line, rest) = x2"
  then have "input \<noteq> []" and r: "rest = drop 1 (dropWhile (\<lambda>c. c \<noteq> newline) input)"
    by (auto simp: getline_def split: if_splits)
  have "length (dropWhile (\<lambda>c. c \<noteq> newline) input) \<le> length input"
    by (rule length_dropWhile_le)
  then have "length rest < length input"
    using r \<open>input \<noteq> []\<close> by (cases input) auto
  then show "(rest, input) \<in> measure length" by simp
qed

declare read_lines.simps [simp del]

text \<open>Lines 128-135: the loop body, for each line read, appending to \<^verbatim>\<open>patterns\<close>.\<close>

fun gitignore_loop :: "string list \<Rightarrow> string list \<Rightarrow> string list" where
  "gitignore_loop [] patterns = patterns"
| "gitignore_loop (line # lines) patterns =
     (if line = [] \<or> hd line = CHR ''#'' then gitignore_loop lines patterns
      else gitignore_loop lines
             (patterns @ [if line \<noteq> [] \<and> hd line = CHR ''/'' then tl line else line]))"

definition loadGitignorePatterns :: "gitignore \<Rightarrow> string list \<Rightarrow> string list" where
  "loadGitignorePatterns found patterns =
     (case found of
        Missing \<Rightarrow> patterns
      | Unopenable \<Rightarrow> patterns
      | Readable content \<Rightarrow> gitignore_loop (read_lines content) patterns)"

text \<open>
  The ignore file in the words of the specification: a line contributes a pattern when
  it is neither empty nor starts with \<open>#\<close>, and the pattern is the line without one
  leading \<open>/\<close>.
\<close>

definition contributes :: "string \<Rightarrow> bool" where
  "contributes line = (case line of [] \<Rightarrow> False | c # cs \<Rightarrow> c \<noteq> CHR ''#'')"

definition strip_leading_slash :: "string \<Rightarrow> string" where
  "strip_leading_slash line =
     (case line of [] \<Rightarrow> [] | c # cs \<Rightarrow> if c = CHR ''/'' then cs else line)"

section \<open>The tree walker (dumpDirectory)\<close>

text \<open>
  What \<^verbatim>\<open>recursive_directory_iterator\<close> finds below the scan root.
  \<^item> \<open>Dir\<close>: an entry for which \<^verbatim>\<open>is_directory()\<close> holds, with its name and its
    entries in the order of enumeration. The iterator does not follow a symbolic link
    to a directory, so such a link is a \<open>Dir\<close> without entries.
  \<^item> \<open>File\<close>: any other entry that is not a symbolic link, with its name and the
    results of the two attempts to open it: the binary-mode open of the classifier
    (line 88) and the open for the content read (line 174). Each is \<open>None\<close> when the
    stream does not open and the file's bytes otherwise; the file may vanish or lose
    its permissions between the two, so they are independent.
  \<^item> \<open>Link\<close>: a symbolic link to something that is not a directory, with the link's
    own name, the path of its target relative to the scan root as
    \<^verbatim>\<open>fs::relative\<close> gives it (line 159), and the results of the two attempts to open
    it, which open the target.

  The enumeration itself is taken to succeed: a directory that cannot be read makes the
  iterator throw, which the program does not catch, and is outside this model.
\<close>

datatype node =
    File string "string option" "string option"
  | Link string string "string option" "string option"
  | Dir string "node list"

text \<open>
  The effects of a run: the characters written to standard output, and the accesses to
  the file system in order: the start of the traversal of a directory, a call of the
  classifier on a file and an attempt to open a file for its content, each file named
  by its path relative to the scan root.
\<close>

datatype fs_event = ScanDir string | Classify string | ReadContent string

record dump_state =
  printed :: string
  accessed :: "fs_event list"

text \<open>
  Line 159, \<^verbatim>\<open>fs::relative(entry.path(), directory).string()\<close>, is
  \<^verbatim>\<open>weakly_canonical(entry.path()).lexically_relative(weakly_canonical(directory))\<close>:
  both paths are made canonical, which resolves symbolic links, before the one is
  expressed relative to the other. For an entry that is not a link the result is the
  names from the scan root down to the entry, joined by \<open>/\<close>: this is \<open>rel_path\<close>,
  for which the walker carries the relative path of the directory it is in, empty at
  the scan root. For a link the result is the path of the link's target, which the
  \<open>Link\<close> node holds. The bare name, \<^verbatim>\<open>entry.path().filename()\<close>, is the entry's own
  name in both cases.
\<close>

definition rel_path :: "string \<Rightarrow> string \<Rightarrow> string" where
  "rel_path rel_dir name = (if rel_dir = [] then name else rel_dir @ ''/'' @ name)"

text \<open>Lines 180-182: the three writes to standard output.\<close>

definition file_block :: "string \<Rightarrow> string \<Rightarrow> string" where
  "file_block relPath content =
     (''<file path='' @ [CHR 0x22] @ relPath @ [CHR 0x22] @ ''>'' @ [newline])
     @ (content @ [newline])
     @ (''</file>'' @ [newline, newline])"

text \<open>Lines 158-182: the loop body for an entry that is not a directory.\<close>

definition dump_file ::
  "string list \<Rightarrow> string \<Rightarrow> string \<Rightarrow> string option \<Rightarrow> string option \<Rightarrow> dump_state \<Rightarrow> dump_state"
where
  "dump_file patterns relPath filename probe reread st =
     (if matchesAnyPattern relPath patterns \<or> matchesAnyPattern filename patterns then st
      else
        let st1 = st\<lparr>accessed := accessed st @ [Classify relPath]\<rparr> in
        if \<not> isTextFile probe then st1
        else
          let st2 = st1\<lparr>accessed := accessed st1 @ [ReadContent relPath]\<rparr> in
          (case reread of
             None \<Rightarrow> st2
           | Some content \<Rightarrow> st2\<lparr>printed := printed st2 @ file_block relPath content\<rparr>))"

text \<open>
  Lines 146-156. The iterator yields a directory before its entries and descends into
  it afterwards, unless \<^verbatim>\<open>disable_recursion_pending\<close> was called on the iterator.
  Line 152 calls it on \<^verbatim>\<open>entry\<close>, the \<^verbatim>\<open>directory_entry\<close> that the range-for of line
  146 binds. A \<^verbatim>\<open>directory_entry\<close> has no such member, and the range-for keeps the
  iterator out of reach: the line as written does not compile, and no iterator is told
  to skip anything. The model takes the line without effect: on a match as without one
  the loop continues and the iterator descends into the directory.
\<close>

fun walk_entry :: "string list \<Rightarrow> string \<Rightarrow> node \<Rightarrow> dump_state \<Rightarrow> dump_state"
  and walk_entries :: "string list \<Rightarrow> string \<Rightarrow> node list \<Rightarrow> dump_state \<Rightarrow> dump_state"
where
  "walk_entry patterns rel_dir (Dir dirName children) st =
     (if matchesAnyPattern dirName patterns then
        walk_entries patterns (rel_path rel_dir dirName) children st
      else walk_entries patterns (rel_path rel_dir dirName) children st)"
| "walk_entry patterns rel_dir (File filename probe reread) st =
     dump_file patterns (rel_path rel_dir filename) filename probe reread st"
| "walk_entry patterns rel_dir (Link filename target probe reread) st =
     dump_file patterns target filename probe reread st"
| "walk_entries patterns rel_dir [] st = st"
| "walk_entries patterns rel_dir (entry # entries) st =
     walk_entries patterns rel_dir entries (walk_entry patterns rel_dir entry st)"

definition dumpDirectory :: "string \<Rightarrow> string list \<Rightarrow> node list \<Rightarrow> dump_state" where
  "dumpDirectory directory patterns entries =
     walk_entries patterns [] entries \<lparr>printed = [], accessed = [ScanDir directory]\<rparr>"

section \<open>The command line (printUsage, main)\<close>

definition printUsage :: "string \<Rightarrow> string" where
  "printUsage programName =
     ''Usage: '' @ programName @ '' [OPTIONS]'' @ [newline]
     @ ''Recursively dump text files to stdout, respecting .gitignore and custom ignore patterns.''
     @ [newline, newline]
     @ ''Options:'' @ [newline]
     @ ''  -h, --help            Show this help message.'' @ [newline]
     @ ''  -d, --dir <PATH>      Directory to run in (default: current working directory).''
     @ [newline]
     @ ''  -i, --ignore <PATTERN> Add pattern to ignore (e.g. -i *.sh)'' @ [newline]
     @ [newline]"

text \<open>
  Lines 204-221: the loop over \<^verbatim>\<open>argv[1]\<close>, ..., with the arguments still to read.
  \<^verbatim>\<open>i + 1 < argc\<close> says that an argument follows the current one.
\<close>

datatype parse_result = Help | Unrecognized string | Parsed string "string list"

function parse_args :: "string list \<Rightarrow> string \<Rightarrow> string list \<Rightarrow> parse_result" where
  "parse_args [] targetDir ignorePatterns = Parsed targetDir ignorePatterns"
| "parse_args (arg # rest) targetDir ignorePatterns =
     (if arg = ''-h'' \<or> arg = ''--help'' then Help
      else if (arg = ''-d'' \<or> arg = ''--dir'') \<and> rest \<noteq> [] then
        parse_args (tl rest) (hd rest) ignorePatterns
      else if (arg = ''-i'' \<or> arg = ''--ignore'') \<and> rest \<noteq> [] then
        parse_args (tl rest) targetDir (ignorePatterns @ [hd rest])
      else Unrecognized arg)"
  by pat_completeness auto
termination
  by (relation "measure (\<lambda>(args, targetDir, ignorePatterns). length args)") simp_all

text \<open>
  What the file system holds at a path: a list of the paths that exist, each one a
  directory, with the state of its \<^verbatim>\<open>.gitignore\<close> and its entries, or something else.
  The ignore file is opened on its own (line 123), so its state stands beside the
  entries, among which the walker meets it again as a file.
\<close>

datatype path_status = NotDirectory | Directory gitignore "node list"

text \<open>Streaming a \<^verbatim>\<open>fs::path\<close> writes it quoted, with \<open>"\<close> and \<open>\\<close> escaped.\<close>

definition quoted :: "string \<Rightarrow> string" where
  "quoted s =
     [CHR 0x22]
     @ concat (map (\<lambda>c. if c = CHR 0x22 \<or> c = CHR 0x5C then [CHR 0x5C, c] else [c]) s)
     @ [CHR 0x22]"

record outcome =
  exit_code :: int
  stdout :: string
  stderr :: string
  accesses :: "fs_event list"

text \<open>Lines 199-236, for the program name, the arguments after it and the environment.\<close>

definition main ::
  "string \<Rightarrow> string list \<Rightarrow> string \<Rightarrow> (string \<times> path_status) list \<Rightarrow> outcome"
where
  "main programName args current_path paths =
     (case parse_args args current_path [] of
        Help \<Rightarrow>
          \<lparr>exit_code = 0, stdout = printUsage programName, stderr = [], accesses = []\<rparr>
      | Unrecognized arg \<Rightarrow>
          \<lparr>exit_code = 1, stdout = printUsage programName,
           stderr = ''Unrecognized option: '' @ arg @ [newline], accesses = []\<rparr>
      | Parsed targetDir ignorePatterns \<Rightarrow>
          (case map_of paths targetDir of
             Some (Directory found entries) \<Rightarrow>
               let st = dumpDirectory targetDir (loadGitignorePatterns found ignorePatterns) entries
               in \<lparr>exit_code = 0, stdout = printed st, stderr = [], accesses = accessed st\<rparr>
           | _ \<Rightarrow>
               \<lparr>exit_code = 1, stdout = [],
                stderr = ''Directory '' @ quoted targetDir
                         @ '' does not exist or is not a directory.'' @ [newline],
                accesses = []\<rparr>))"

section \<open>Notions used in the statements\<close>

text \<open>
  The state of the table when the loops of \<open>wildcardMatch\<close> are about to fill cell
  \<open>(i, j)\<close>: it has its dimensions; column 0, the rows above \<open>i\<close> and the cells of row
  \<open>i\<close> left of \<open>j\<close> say whether the prefix of the text of that length matches the
  prefix of the pattern of that length; every other cell is still false.
\<close>

definition dp_inv :: "string \<Rightarrow> string \<Rightarrow> nat \<Rightarrow> nat \<Rightarrow> table \<Rightarrow> bool" where
  "dp_inv str pattern i j dp =
     (length dp = Suc (length str) \<and>
      (\<forall>i' \<le> length str. length (dp ! i') = Suc (length pattern)) \<and>
      (\<forall>i' \<le> length str. \<forall>j' \<le> length pattern.
         dp ! i' ! j' =
           ((j' = 0 \<or> i' < i \<or> (i' = i \<and> j' < j)) \<and>
            pattern_matches (take i' str) (take j' pattern))))"

text \<open>
  Every entry of the tree has a name, as every entry of a file system has, and the
  relative path of a link's target is not empty, as no result of \<^verbatim>\<open>fs::relative\<close>
  for an entry below the scan root is.
\<close>

fun named :: "node \<Rightarrow> bool" where
  "named (File filename probe reread) = (filename \<noteq> [])"
| "named (Link filename target probe reread) = (filename \<noteq> [] \<and> target \<noteq> [])"
| "named (Dir dirName children) = (dirName \<noteq> [] \<and> list_all named children)"

section \<open>The matcher computes the specified matching\<close>

subsection \<open>The specified matching, one pattern character at a time\<close>

lemma pattern_matches_Nil: "pattern_matches t [] \<longleftrightarrow> t = []"
  by (auto simp: pattern_matches_def)

lemma pattern_matches_snoc:
  "pattern_matches t (p @ [c]) \<longleftrightarrow>
     (\<exists>t1 s. t = t1 @ s \<and> pattern_matches t1 p \<and> piece_ok c s)"
proof
  assume "pattern_matches t (p @ [c])"
  then obtain pieces where a: "list_all2 piece_ok (p @ [c]) pieces" and b: "concat pieces = t"
    by (auto simp: pattern_matches_def)
  from a obtain us v where c: "pieces = us @ [v]" "list_all2 piece_ok p us" "piece_ok c v"
    by (auto simp: list_all2_append1 list_all2_Cons1)
  have "t = concat us @ v" using b c by simp
  moreover have "pattern_matches (concat us) p" using c by (auto simp: pattern_matches_def)
  ultimately show "\<exists>t1 s. t = t1 @ s \<and> pattern_matches t1 p \<and> piece_ok c s"
    using c by blast
next
  assume "\<exists>t1 s. t = t1 @ s \<and> pattern_matches t1 p \<and> piece_ok c s"
  then obtain t1 s us where a: "t = t1 @ s" "piece_ok c s" "list_all2 piece_ok p us" "concat us = t1"
    by (auto simp: pattern_matches_def)
  then have "list_all2 piece_ok (p @ [c]) (us @ [s])" "concat (us @ [s]) = t"
    by (auto intro: list_all2_appendI)
  then show "pattern_matches t (p @ [c])"
    unfolding pattern_matches_def by blast
qed

lemma pm_star_empty: "pattern_matches [] (p @ [CHR ''*'']) \<longleftrightarrow> pattern_matches [] p"
  by (simp add: pattern_matches_snoc piece_ok_def)

lemma pm_star_snoc:
  "pattern_matches (t @ [x]) (p @ [CHR ''*'']) \<longleftrightarrow>
     pattern_matches (t @ [x]) p \<or> pattern_matches t (p @ [CHR ''*''])"
proof -
  have "(\<exists>t1 s. t @ [x] = t1 @ s \<and> pattern_matches t1 p) \<longleftrightarrow>
        pattern_matches (t @ [x]) p \<or> (\<exists>t1 s. t = t1 @ s \<and> pattern_matches t1 p)"
  proof
    assume "\<exists>t1 s. t @ [x] = t1 @ s \<and> pattern_matches t1 p"
    then obtain t1 s where a: "t @ [x] = t1 @ s" "pattern_matches t1 p" by blast
    show "pattern_matches (t @ [x]) p \<or> (\<exists>t1 s. t = t1 @ s \<and> pattern_matches t1 p)"
    proof (cases s rule: rev_cases)
      case Nil
      then show ?thesis using a by simp
    next
      case (snoc s' y)
      then have "t = t1 @ s'" using a by simp
      then show ?thesis using a by blast
    qed
  next
    assume "pattern_matches (t @ [x]) p \<or> (\<exists>t1 s. t = t1 @ s \<and> pattern_matches t1 p)"
    then show "\<exists>t1 s. t @ [x] = t1 @ s \<and> pattern_matches t1 p"
    proof
      assume "pattern_matches (t @ [x]) p"
      then have "t @ [x] = (t @ [x]) @ [] \<and> pattern_matches (t @ [x]) p" by simp
      then show ?thesis by blast
    next
      assume "\<exists>t1 s. t = t1 @ s \<and> pattern_matches t1 p"
      then obtain t1 s where "t = t1 @ s" "pattern_matches t1 p" by blast
      then have "t @ [x] = t1 @ (s @ [x]) \<and> pattern_matches t1 p" by simp
      then show ?thesis by blast
    qed
  qed
  then show ?thesis by (simp add: pattern_matches_snoc piece_ok_def)
qed

lemma pm_other_empty: "c \<noteq> CHR ''*'' \<Longrightarrow> \<not> pattern_matches [] (p @ [c])"
  by (auto simp: pattern_matches_snoc piece_ok_def)

lemma pm_other_snoc:
  assumes "c \<noteq> CHR ''*''"
  shows "pattern_matches (t @ [x]) (p @ [c]) \<longleftrightarrow> (c = CHR ''?'' \<or> c = x) \<and> pattern_matches t p"
proof -
  have "piece_ok c s \<longleftrightarrow> (\<exists>y. s = [y] \<and> (c = CHR ''?'' \<or> c = y))" for s
    using assms by (cases s) (auto simp: piece_ok_def)
  then show ?thesis
    by (auto simp: pattern_matches_snoc)
qed

subsection \<open>The table and its loops\<close>

lemma for_loop_append:
  "for_loop (ks @ [k]) body s =
     (case for_loop ks body s of None \<Rightarrow> None | Some s' \<Rightarrow> body k s')"
  by (induction ks arbitrary: s) (auto split: option.splits)

lemma for_loop_upt:
  assumes "a \<le> b" and "I a s"
    and step: "\<And>k s. a \<le> k \<Longrightarrow> k < b \<Longrightarrow> I k s \<Longrightarrow> \<exists>s'. body k s = Some s' \<and> I (Suc k) s'"
  shows "\<exists>s'. for_loop [a..<b] body s = Some s' \<and> I b s'"
  using assms(1) step
proof (induction b)
  case 0
  then show ?case using assms(2) by simp
next
  case (Suc b)
  show ?case
  proof (cases "a = Suc b")
    case True
    then show ?thesis using assms(2) by simp
  next
    case False
    then have ab: "a \<le> b" using Suc.prems(1) by simp
    have "\<exists>s'. for_loop [a..<b] body s = Some s' \<and> I b s'"
      using Suc.IH [OF ab] Suc.prems(2) by simp
    then obtain s1 where s1: "for_loop [a..<b] body s = Some s1" "I b s1" by blast
    obtain s2 where s2: "body b s1 = Some s2" "I (Suc b) s2"
      using Suc.prems(2) [OF ab _ s1(2)] by auto
    show ?thesis using ab s1 s2 by (simp add: for_loop_append)
  qed
qed

lemma dp_inv_read:
  assumes "dp_inv str pattern i j dp" "i' \<le> length str" "j' \<le> length pattern"
  shows "read_cell dp i' j' =
           Some ((j' = 0 \<or> i' < i \<or> (i' = i \<and> j' < j)) \<and>
                 pattern_matches (take i' str) (take j' pattern))"
  using assms unfolding dp_inv_def read_cell_def by simp

lemma dp_inv_write:
  assumes inv: "dp_inv str pattern i j dp" and i: "i \<le> length str" and j: "j \<le> length pattern"
    and j0: "0 < j"
    and v: "v = pattern_matches (take i str) (take j pattern)"
  shows "\<exists>dp'. write_cell dp i j v = Some dp' \<and> dp_inv str pattern i (Suc j) dp'"
proof -
  have len: "length dp = Suc (length str)"
    and rows: "\<And>i'. i' \<le> length str \<Longrightarrow> length (dp ! i') = Suc (length pattern)"
    and cells: "\<And>i' j'. i' \<le> length str \<Longrightarrow> j' \<le> length pattern \<Longrightarrow>
         dp ! i' ! j' = ((j' = 0 \<or> i' < i \<or> (i' = i \<and> j' < j)) \<and>
            pattern_matches (take i' str) (take j' pattern))"
    using inv unfolding dp_inv_def by auto
  let ?dp' = "dp[i := (dp ! i)[j := v]]"
  have w: "write_cell dp i j v = Some ?dp'"
    using len rows [OF i] i j by (simp add: write_cell_def)
  have rows': "length (?dp' ! i') = Suc (length pattern)" if "i' \<le> length str" for i'
    using that len rows [OF that] rows [OF i] by (cases "i' = i") simp_all
  have cells': "?dp' ! i' ! j' = ((j' = 0 \<or> i' < i \<or> (i' = i \<and> j' < Suc j)) \<and>
            pattern_matches (take i' str) (take j' pattern))"
    if a: "i' \<le> length str" and b: "j' \<le> length pattern" for i' j'
  proof (cases "i' = i")
    case True
    show ?thesis
    proof (cases "j' = j")
      case True
      then show ?thesis using \<open>i' = i\<close> len rows [OF i] i j v by simp
    next
      case False
      then have "?dp' ! i' ! j' = dp ! i' ! j'"
        using \<open>i' = i\<close> len i by simp
      then show ?thesis using cells [OF a b] False \<open>i' = i\<close> by auto
    qed
  next
    case False
    then have "?dp' ! i' ! j' = dp ! i' ! j'" by simp
    then show ?thesis using cells [OF a b] False by auto
  qed
  have "dp_inv str pattern i (Suc j) ?dp'"
    unfolding dp_inv_def using len rows' cells' by simp
  then show ?thesis using w by blast
qed

lemma dp_inv_skip:
  assumes inv: "dp_inv str pattern i j dp" and i: "i \<le> length str" and j: "j \<le> length pattern"
    and v: "\<not> pattern_matches (take i str) (take j pattern)"
  shows "dp_inv str pattern i (Suc j) dp"
  using inv v unfolding dp_inv_def by (auto simp: less_Suc_eq)

lemma dp_inv_next_row:
  assumes "dp_inv str pattern i (Suc (length pattern)) dp"
  shows "dp_inv str pattern (Suc i) 1 dp"
  using assms unfolding dp_inv_def by (auto simp: less_Suc_eq)

lemma dp_inv_init:
  "\<exists>dp0. write_cell (replicate (length str + 1) (replicate (length pattern + 1) False)) 0 0 True
            = Some dp0 \<and> dp_inv str pattern 0 1 dp0"
proof -
  let ?blank = "replicate (length str + 1) (replicate (length pattern + 1) False)"
  let ?start = "?blank[0 := (?blank ! 0)[0 := True]]"
  have w: "write_cell ?blank 0 0 True = Some ?start" by (simp add: write_cell_def)
  have rows: "length (?start ! i') = Suc (length pattern)" if "i' \<le> length str" for i'
    using that by (cases i') simp_all
  have cells: "?start ! i' ! j' = (i' = 0 \<and> j' = 0)"
    if "i' \<le> length str" "j' \<le> length pattern" for i' j'
    using that by (cases i'; cases j') simp_all
  have inv: "dp_inv str pattern 0 1 ?start"
    unfolding dp_inv_def using rows cells by (auto simp: pattern_matches_Nil)
  have "write_cell ?blank 0 0 True = Some ?start \<and> dp_inv str pattern 0 1 ?start"
    using w inv by (rule conjI)
  then show ?thesis by (rule exI)
qed

lemma take_pred_snoc:
  "0 < k \<Longrightarrow> k \<le> length xs \<Longrightarrow> take k xs = take (k - 1) xs @ [xs ! (k - 1)]"
  by (cases k) (simp_all add: take_Suc_conv_app_nth)

lemma first_row_step_inv:
  assumes inv: "dp_inv str pattern 0 j dp" and j: "1 \<le> j" "j \<le> length pattern"
  shows "\<exists>dp'. first_row_step pattern j dp = Some dp' \<and> dp_inv str pattern 0 (Suc j) dp'"
proof -
  let ?pc = "pattern ! (j - 1)"
  have pc: "char_at pattern (j - 1) = Some ?pc" using j by (simp add: char_at_def)
  have tk: "take j pattern = take (j - 1) pattern @ [?pc]"
    using j by (simp add: take_pred_snoc)
  show ?thesis
  proof (cases "?pc = CHR ''*''")
    case True
    have rd: "read_cell dp 0 (j - 1) = Some (pattern_matches [] (take (j - 1) pattern))"
      using dp_inv_read [OF inv, of 0 "j - 1"] j by auto
    have "pattern_matches [] (take (j - 1) pattern) = pattern_matches (take 0 str) (take j pattern)"
      using True tk by (simp add: pm_star_empty)
    from dp_inv_write [OF inv _ j(2) _ this] j
    obtain dp' where "write_cell dp 0 j (pattern_matches [] (take (j - 1) pattern)) = Some dp'"
      "dp_inv str pattern 0 (Suc j) dp'" by auto
    then show ?thesis using True pc rd by (simp add: first_row_step_def)
  next
    case False
    have "\<not> pattern_matches (take 0 str) (take j pattern)"
      using False tk by (simp add: pm_other_empty)
    from dp_inv_skip [OF inv _ j(2) this]
    have "dp_inv str pattern 0 (Suc j) dp" by simp
    then show ?thesis using False pc by (simp add: first_row_step_def)
  qed
qed

lemma fill_step_inv:
  assumes inv: "dp_inv str pattern i j dp" and i: "1 \<le> i" "i \<le> length str"
    and j: "1 \<le> j" "j \<le> length pattern"
  shows "\<exists>dp'. fill_step str pattern i j dp = Some dp' \<and> dp_inv str pattern i (Suc j) dp'"
proof -
  let ?pc = "pattern ! (j - 1)" and ?sc = "str ! (i - 1)"
  let ?M = "\<lambda>a b. pattern_matches (take a str) (take b pattern)"
  have pc: "char_at pattern (j - 1) = Some ?pc" using j by (simp add: char_at_def)
  have sc: "char_at str (i - 1) = Some ?sc" using i by (simp add: char_at_def)
  have tp: "take j pattern = take (j - 1) pattern @ [?pc]"
    using j by (simp add: take_pred_snoc)
  have ts: "take i str = take (i - 1) str @ [?sc]"
    using i by (simp add: take_pred_snoc)
  have left: "read_cell dp i (j - 1) = Some (?M i (j - 1))"
    using dp_inv_read [OF inv, of i "j - 1"] i j by auto
  have up: "read_cell dp (i - 1) j = Some (?M (i - 1) j)"
    using dp_inv_read [OF inv, of "i - 1" j] i j by auto
  have diag: "read_cell dp (i - 1) (j - 1) = Some (?M (i - 1) (j - 1))"
    using dp_inv_read [OF inv, of "i - 1" "j - 1"] i j by auto
  have wr: "\<exists>dp'. write_cell dp i j v = Some dp' \<and> dp_inv str pattern i (Suc j) dp'"
    if "v = ?M i j" for v
    using dp_inv_write [OF inv i(2) j(2) _ that] j by simp
  show ?thesis
  proof (cases "?pc = CHR ''*''")
    case True
    have eq: "?M i j = (?M i (j - 1) \<or> ?M (i - 1) j)"
    proof -
      have "?M i j = pattern_matches (take (i - 1) str @ [?sc]) (take (j - 1) pattern @ [CHR ''*''])"
        using tp ts True by simp
      also have "\<dots> = (pattern_matches (take (i - 1) str @ [?sc]) (take (j - 1) pattern) \<or>
                       pattern_matches (take (i - 1) str) (take (j - 1) pattern @ [CHR ''*'']))"
        by (rule pm_star_snoc)
      also have "\<dots> = (?M i (j - 1) \<or> ?M (i - 1) j)"
        using tp ts True by simp
      finally show ?thesis .
    qed
    show ?thesis
    proof (cases "?M i (j - 1)")
      case True
      with eq wr [of True] \<open>?pc = CHR ''*''\<close> pc left show ?thesis
        by (simp add: fill_step_def)
    next
      case False
      with eq wr [of "?M (i - 1) j"] \<open>?pc = CHR ''*''\<close> pc left up show ?thesis
        by (simp add: fill_step_def)
    qed
  next
    case False
    have eq: "?M i j = ((?pc = CHR ''?'' \<or> ?pc = ?sc) \<and> ?M (i - 1) (j - 1))"
    proof -
      have "?M i j = pattern_matches (take (i - 1) str @ [?sc]) (take (j - 1) pattern @ [?pc])"
        using tp ts by simp
      also have "\<dots> = ((?pc = CHR ''?'' \<or> ?pc = ?sc) \<and> ?M (i - 1) (j - 1))"
        by (rule pm_other_snoc [OF False])
      finally show ?thesis .
    qed
    show ?thesis
    proof (cases "?pc = CHR ''?''")
      case True
      with eq wr [of "?M (i - 1) (j - 1)"] False pc diag show ?thesis
        by (simp add: fill_step_def)
    next
      case q: False
      show ?thesis
      proof (cases "?pc = ?sc")
        case True
        with eq wr [of "?M (i - 1) (j - 1)"] False q pc sc diag show ?thesis
          by (simp add: fill_step_def)
      next
        case ne: False
        with eq wr [of False] False q pc sc show ?thesis
          by (simp add: fill_step_def)
      qed
    qed
  qed
qed

lemma fill_row_inv:
  assumes inv: "dp_inv str pattern i 1 dp" and i: "1 \<le> i" "i \<le> length str"
  shows "\<exists>dp'. fill_row str pattern i dp = Some dp' \<and> dp_inv str pattern (Suc i) 1 dp'"
proof -
  have "\<exists>dp'. for_loop [1..<Suc (length pattern)] (fill_step str pattern i) dp = Some dp' \<and>
          dp_inv str pattern i (Suc (length pattern)) dp'"
  proof (rule for_loop_upt [where I = "\<lambda>j. dp_inv str pattern i j"])
    show "1 \<le> Suc (length pattern)" by simp
    show "dp_inv str pattern i 1 dp" by (rule inv)
    show "\<exists>s'. fill_step str pattern i k s = Some s' \<and> dp_inv str pattern i (Suc k) s'"
      if "1 \<le> k" "k < Suc (length pattern)" "dp_inv str pattern i k s" for k s
      using fill_step_inv [OF that(3) i that(1)] that(2) by simp
  qed
  then obtain dp' where a: "for_loop [1..<Suc (length pattern)] (fill_step str pattern i) dp = Some dp'"
    and b: "dp_inv str pattern i (Suc (length pattern)) dp'" by blast
  have "fill_row str pattern i dp = Some dp'"
    unfolding fill_row_def by (rule a)
  moreover have "dp_inv str pattern (Suc i) 1 dp'"
    by (rule dp_inv_next_row [OF b])
  ultimately show ?thesis by blast
qed

lemma wildcardMatch_checked_correct:
  "wildcardMatch_checked str pattern = Some (pattern_matches str pattern)"
proof (cases "pattern = []")
  case True
  then show ?thesis by (auto simp: wildcardMatch_checked_def pattern_matches_Nil)
next
  case False
  obtain dp0 where dp0:
    "write_cell (replicate (length str + 1) (replicate (length pattern + 1) False)) 0 0 True
       = Some dp0" "dp_inv str pattern 0 1 dp0"
    using dp_inv_init by blast
  have "\<exists>dp1. for_loop [1..<Suc (length pattern)] (first_row_step pattern) dp0 = Some dp1 \<and>
          dp_inv str pattern 0 (Suc (length pattern)) dp1"
  proof (rule for_loop_upt [where I = "\<lambda>j. dp_inv str pattern 0 j"])
    show "1 \<le> Suc (length pattern)" by simp
    show "dp_inv str pattern 0 1 dp0" by (rule dp0(2))
    show "\<exists>s'. first_row_step pattern k s = Some s' \<and> dp_inv str pattern 0 (Suc k) s'"
      if "1 \<le> k" "k < Suc (length pattern)" "dp_inv str pattern 0 k s" for k s
      using first_row_step_inv [OF that(3) that(1)] that(2) by simp
  qed
  then obtain dp1 where dp1:
    "for_loop [1..<Suc (length pattern)] (first_row_step pattern) dp0 = Some dp1"
    "dp_inv str pattern 1 1 dp1"
    using dp_inv_next_row by fastforce
  have "\<exists>dp2. for_loop [1..<Suc (length str)] (fill_row str pattern) dp1 = Some dp2 \<and>
          dp_inv str pattern (Suc (length str)) 1 dp2"
  proof (rule for_loop_upt [where I = "\<lambda>i. dp_inv str pattern i 1"])
    show "1 \<le> Suc (length str)" by simp
    show "dp_inv str pattern 1 1 dp1" by (rule dp1(2))
    show "\<exists>s'. fill_row str pattern k s = Some s' \<and> dp_inv str pattern (Suc k) 1 s'"
      if "1 \<le> k" "k < Suc (length str)" "dp_inv str pattern k 1 s" for k s
      using fill_row_inv [OF that(3) that(1)] that(2) by simp
  qed
  then obtain dp2 where dp2:
    "for_loop [1..<Suc (length str)] (fill_row str pattern) dp1 = Some dp2"
    "dp_inv str pattern (Suc (length str)) 1 dp2"
    by blast
  have "read_cell dp2 (length str) (length pattern) = Some (pattern_matches str pattern)"
    using dp_inv_read [OF dp2(2), of "length str" "length pattern"] by simp
  then show ?thesis
    using False dp0(1) dp1(1) dp2(1) by (simp add: wildcardMatch_checked_def)
qed

lemma wildcardMatch_iff: "wildcardMatch str pattern \<longleftrightarrow> pattern_matches str pattern"
  by (simp add: wildcardMatch_def wildcardMatch_checked_correct)

text \<open>
  C1. For every text and every pattern, the table-filling matcher never reads or
  writes outside its table, and it returns true if and only if the pattern matches the
  entire text: the text is the concatenation of one piece for each pattern character,
  where \<open>*\<close> stands for any string, \<open>?\<close> for exactly one character and any other
  character for itself. In particular the empty pattern matches only the empty text.
\<close>

theorem wildcardMatch_correct:
  "wildcardMatch_checked t p = Some (wildcardMatch t p) \<and>
   wildcardMatch t p = pattern_matches t p \<and>
   wildcardMatch t [] = (t = [])"
  by (simp add: wildcardMatch_def wildcardMatch_checked_correct pattern_matches_Nil)

theorem wildcardMatch_correct_witness:
  "wildcardMatch ''abc.txt'' ''*.txt'' \<and> pattern_matches ''abc.txt'' ''*.txt'' \<and>
   \<not> wildcardMatch ''abc.txtx'' ''*.txt'' \<and> \<not> pattern_matches ''abc.txtx'' ''*.txt'' \<and>
   wildcardMatch ''abc'' ''a?c'' \<and> \<not> pattern_matches ''abc'' ''a?d'' \<and>
   \<not> pattern_matches '''' ''?'' \<and> pattern_matches '''' ''*''"
proof -
  have "wildcardMatch ''abc.txt'' ''*.txt''" "\<not> wildcardMatch ''abc.txtx'' ''*.txt''"
    "wildcardMatch ''abc'' ''a?c''" "\<not> wildcardMatch ''abc'' ''a?d''"
    "\<not> wildcardMatch '''' ''?''" "wildcardMatch '''' ''*''"
    by code_simp+
  then show ?thesis
    using wildcardMatch_correct [of "''abc.txt''" "''*.txt''"]
      wildcardMatch_correct [of "''abc.txtx''" "''*.txt''"]
      wildcardMatch_correct [of "''abc''" "''a?d''"]
      wildcardMatch_correct [of "''''" "''?''"]
      wildcardMatch_correct [of "''''" "''*''"]
    by simp
qed

section \<open>Matching against a pattern list\<close>

lemma matchesAnyPattern_iff:
  "matchesAnyPattern name ps \<longleftrightarrow> (\<exists>p\<in>set ps. wildcardMatch name p)"
  by (induction ps) auto

text \<open>
  C6. For every name and every pattern list, \<open>matchesAnyPattern\<close> returns true if and
  only if at least one pattern of the list matches the name (as the matcher decides it,
  which is the specified matching), and any permutation of the list gives the same
  result.
\<close>

theorem matchesAnyPattern_existential:
  "(matchesAnyPattern name ps \<longleftrightarrow> (\<exists>p\<in>set ps. wildcardMatch name p)) \<and>
   (matchesAnyPattern name ps \<longleftrightarrow> (\<exists>p\<in>set ps. pattern_matches name p)) \<and>
   (\<forall>qs. mset qs = mset ps \<longrightarrow> matchesAnyPattern name qs = matchesAnyPattern name ps)"
proof (intro conjI allI impI)
  show "matchesAnyPattern name ps \<longleftrightarrow> (\<exists>p\<in>set ps. wildcardMatch name p)"
    by (rule matchesAnyPattern_iff)
  then show "matchesAnyPattern name ps \<longleftrightarrow> (\<exists>p\<in>set ps. pattern_matches name p)"
    by (simp add: wildcardMatch_iff)
next
  fix qs :: "string list"
  assume "mset qs = mset ps"
  then have "set qs = set ps" by (rule mset_eq_setD)
  then show "matchesAnyPattern name qs = matchesAnyPattern name ps"
    by (simp add: matchesAnyPattern_iff)
qed

theorem matchesAnyPattern_existential_witness:
  "matchesAnyPattern ''a.sh'' [''*.txt'', ''*.sh''] \<and>
   matchesAnyPattern ''a.sh'' [''*.sh'', ''*.txt''] \<and>
   \<not> matchesAnyPattern ''a.sh'' [''*.txt'', ''b?sh'']"
proof -
  have e: "wildcardMatch ''a.sh'' ''*.sh''" "\<not> wildcardMatch ''a.sh'' ''*.txt''"
    "\<not> wildcardMatch ''a.sh'' ''b?sh''"
    by code_simp+
  have m: "mset [''*.sh'', ''*.txt''] = mset [''*.txt'', ''*.sh'']"
    by (simp add: add_mset_commute)
  have one: "matchesAnyPattern ''a.sh'' [''*.txt'', ''*.sh'']"
    using matchesAnyPattern_existential [of "''a.sh''" "[''*.txt'', ''*.sh'']"] e by simp
  have "matchesAnyPattern ''a.sh'' [''*.sh'', ''*.txt''] =
        matchesAnyPattern ''a.sh'' [''*.txt'', ''*.sh'']"
    using matchesAnyPattern_existential [of "''a.sh''" "[''*.txt'', ''*.sh'']"] m by blast
  moreover have "\<not> matchesAnyPattern ''a.sh'' [''*.txt'', ''b?sh'']"
    using matchesAnyPattern_existential [of "''a.sh''" "[''*.txt'', ''b?sh'']"] e by simp
  ultimately show ?thesis using one by simp
qed

section \<open>The classifier\<close>

lemma scan_bytes_iff:
  "scan_bytes buffer \<longleftrightarrow>
     (\<forall>b\<in>set buffer. uchar b \<noteq> 0 \<and> \<not> (uchar b < 9 \<or> (13 < uchar b \<and> uchar b < 32)))"
  by (induction buffer) (auto simp: Let_def)

lemma byte_tests:
  fixes c :: "8 word"
  shows "c = 0 \<longleftrightarrow> unat c = 0" "c < 9 \<longleftrightarrow> unat c < 9" "13 < c \<longleftrightarrow> 13 < unat c"
    "c < 32 \<longleftrightarrow> unat c < 32"
  by (simp_all add: unat_eq_0 word_less_nat_alt)

text \<open>
  C2. \<open>isTextFile\<close> returns true if and only if the file opens and, among its first
  min(1024, size) bytes, no byte is 0 and no byte's unsigned value is below 9 or
  strictly between 13 and 32; that is, every such byte is one of 9..13 or at least 32
  (the values 128..255 included). An empty file is text; a file that does not open is
  not.
\<close>

theorem isTextFile_iff:
  "(isTextFile f \<longleftrightarrow>
      (\<exists>bytes. f = Some bytes \<and>
         (\<forall>b\<in>set (take (min 1024 (length bytes)) bytes).
            unat (uchar b) \<noteq> 0 \<and>
            \<not> (unat (uchar b) < 9 \<or> (13 < unat (uchar b) \<and> unat (uchar b) < 32))))) \<and>
   (isTextFile f \<longleftrightarrow>
      (\<exists>bytes. f = Some bytes \<and>
         (\<forall>b\<in>set (take (min 1024 (length bytes)) bytes).
            (9 \<le> unat (uchar b) \<and> unat (uchar b) \<le> 13) \<or>
            (32 \<le> unat (uchar b) \<and> unat (uchar b) \<le> 255)))) \<and>
   isTextFile (Some []) \<and> \<not> isTextFile None"
proof -
  have tk: "take (min 1024 (length bytes)) bytes = take CHUNK_SIZE bytes" for bytes :: string
    by (simp add: CHUNK_SIZE_def min_def)
  have first: "isTextFile f \<longleftrightarrow>
      (\<exists>bytes. f = Some bytes \<and>
         (\<forall>b\<in>set (take (min 1024 (length bytes)) bytes).
            unat (uchar b) \<noteq> 0 \<and>
            \<not> (unat (uchar b) < 9 \<or> (13 < unat (uchar b) \<and> unat (uchar b) < 32))))"
    unfolding tk
    by (cases f) (simp_all add: isTextFile_def scan_bytes_iff byte_tests)
  have range: "unat (uchar b) \<le> 255" for b
    using unsigned_less [of "uchar b", where 'a = nat] by simp
  have "(unat (uchar b) \<noteq> 0 \<and>
          \<not> (unat (uchar b) < 9 \<or> (13 < unat (uchar b) \<and> unat (uchar b) < 32))) \<longleftrightarrow>
        ((9 \<le> unat (uchar b) \<and> unat (uchar b) \<le> 13) \<or>
         (32 \<le> unat (uchar b) \<and> unat (uchar b) \<le> 255))" for b
    using range [of b] by arith
  then have second: "isTextFile f \<longleftrightarrow>
      (\<exists>bytes. f = Some bytes \<and>
         (\<forall>b\<in>set (take (min 1024 (length bytes)) bytes).
            (9 \<le> unat (uchar b) \<and> unat (uchar b) \<le> 13) \<or>
            (32 \<le> unat (uchar b) \<and> unat (uchar b) \<le> 255)))"
    using first by simp
  have "isTextFile (Some [])" "\<not> isTextFile None"
    by (simp_all add: isTextFile_def)
  then show ?thesis using first second by blast
qed

theorem isTextFile_iff_witness:
  "isTextFile (Some (''int main() {}'' @ [CHR 0x09, CHR 0x0A, CHR 0x0D, CHR 0xC3, CHR 0xFF])) \<and>
   \<not> isTextFile (Some [CHR ''a'', CHR 0x00]) \<and>
   \<not> isTextFile (Some [CHR ''a'', CHR 0x01]) \<and>
   \<not> isTextFile (Some [CHR ''a'', CHR 0x1F]) \<and>
   isTextFile (Some (replicate 1024 (CHR ''a'') @ [CHR 0x00]))"
proof -
  have v: "unat (uchar (CHR ''a'')) = 97" "unat (uchar (CHR 0x00)) = 0"
    "unat (uchar (CHR 0x01)) = 1" "unat (uchar (CHR 0x1F)) = 31"
    by (simp_all add: uchar_def)
  have a: "isTextFile (Some (''int main() {}'' @ [CHR 0x09, CHR 0x0A, CHR 0x0D, CHR 0xC3, CHR 0xFF]))"
    using isTextFile_iff
      [of "Some (''int main() {}'' @ [CHR 0x09, CHR 0x0A, CHR 0x0D, CHR 0xC3, CHR 0xFF])"]
    by (simp add: uchar_def)
  have b: "\<not> isTextFile (Some [CHR ''a'', CHR 0x00])"
    using isTextFile_iff [of "Some [CHR ''a'', CHR 0x00]"] v by simp
  have c: "\<not> isTextFile (Some [CHR ''a'', CHR 0x01])"
    using isTextFile_iff [of "Some [CHR ''a'', CHR 0x01]"] v by simp
  have d: "\<not> isTextFile (Some [CHR ''a'', CHR 0x1F])"
    using isTextFile_iff [of "Some [CHR ''a'', CHR 0x1F]"] v by simp
  have e: "isTextFile (Some (replicate 1024 (CHR ''a'') @ [CHR 0x00]))"
    using isTextFile_iff [of "Some (replicate 1024 (CHR ''a'') @ [CHR 0x00])"] v
    by (auto dest: in_set_takeD)
  show ?thesis using a b c d e by simp
qed

section \<open>The pattern list\<close>

lemma gitignore_loop_eq:
  "gitignore_loop lines patterns =
     patterns @ map strip_leading_slash (filter contributes lines)"
  by (induction lines arbitrary: patterns)
    (auto simp: contributes_def strip_leading_slash_def split: list.splits)

lemma getline_terminated:
  assumes "newline \<notin> set line"
  shows "getline (line @ newline # rest) = Some (line, rest)"
proof -
  have p: "\<And>c. c \<in> set line \<Longrightarrow> c \<noteq> newline" using assms by auto
  have "takeWhile (\<lambda>c. c \<noteq> newline) (line @ newline # rest) = line"
    using p by (simp add: takeWhile_append2)
  moreover have "dropWhile (\<lambda>c. c \<noteq> newline) (line @ newline # rest) = newline # rest"
    using p by (simp add: dropWhile_append2)
  ultimately show ?thesis by (simp add: getline_def)
qed

lemma getline_last:
  assumes "newline \<notin> set line" "line \<noteq> []"
  shows "getline line = Some (line, [])"
proof -
  have p: "\<And>c. c \<in> set line \<Longrightarrow> c \<noteq> newline" using assms by auto
  have tw: "takeWhile (\<lambda>c. c \<noteq> newline) line = line"
    and dw: "dropWhile (\<lambda>c. c \<noteq> newline) line = []"
    using p by (simp_all add: takeWhile_eq_all_conv dropWhile_eq_Nil_conv)
  show ?thesis unfolding getline_def tw dw using assms(2) by simp
qed

lemma read_lines_Nil: "read_lines [] = []"
  by (simp add: read_lines.simps getline_def)

lemma read_lines_terminated:
  "newline \<notin> set line \<Longrightarrow> read_lines (line @ newline # rest) = line # read_lines rest"
  by (subst read_lines.simps) (simp add: getline_terminated)

lemma read_lines_last:
  "newline \<notin> set line \<Longrightarrow> line \<noteq> [] \<Longrightarrow> read_lines line = [line]"
  by (subst read_lines.simps) (simp add: getline_last read_lines_Nil)

lemma read_lines_concat:
  "\<forall>l\<in>set ls. newline \<notin> set l \<Longrightarrow>
     read_lines (concat (map (\<lambda>l. l @ [newline]) ls)) = ls"
  by (induction ls) (simp_all add: read_lines_Nil read_lines_terminated)

lemma parse_args_ignore_flags:
  "parse_args (concat (map (\<lambda>p. [''-i'', p]) cli)) dir acc = Parsed dir (acc @ cli)"
  by (induction cli arbitrary: acc) simp_all

text \<open>
  C5. The pattern list handed to the walker is exactly: the patterns of the command
  line in their order (for a command line of \<open>-i\<close> options, the values in the order
  given), followed by, for each line of the ignore file in file order that is neither
  empty nor starts with \<open>#\<close>, that line without one leading \<open>/\<close>; the other lines
  and a missing or unopenable ignore file contribute nothing. The lines are those that
  \<open>getline\<close> yields; for a file that is a sequence of newline-terminated lines they
  are these lines.
\<close>

theorem loadGitignorePatterns_exact:
  "loadGitignorePatterns found cli =
     cli @ (case found of
              Readable content \<Rightarrow>
                map strip_leading_slash (filter contributes (read_lines content))
            | _ \<Rightarrow> []) \<and>
   ((\<forall>l\<in>set ls. newline \<notin> set l) \<longrightarrow>
      loadGitignorePatterns (Readable (concat (map (\<lambda>l. l @ [newline]) ls))) cli =
        cli @ map strip_leading_slash (filter contributes ls)) \<and>
   contributes line = (line \<noteq> [] \<and> hd line \<noteq> CHR ''#'') \<and>
   strip_leading_slash line = (if line \<noteq> [] \<and> hd line = CHR ''/'' then tl line else line) \<and>
   parse_args (concat (map (\<lambda>p. [''-i'', p]) cli)) dir [] = Parsed dir cli"
proof (intro conjI impI)
  show "loadGitignorePatterns found cli =
     cli @ (case found of
              Readable content \<Rightarrow>
                map strip_leading_slash (filter contributes (read_lines content))
            | _ \<Rightarrow> [])"
    by (cases found) (simp_all add: loadGitignorePatterns_def gitignore_loop_eq)
  show "loadGitignorePatterns (Readable (concat (map (\<lambda>l. l @ [newline]) ls))) cli =
        cli @ map strip_leading_slash (filter contributes ls)"
    if "\<forall>l\<in>set ls. newline \<notin> set l"
    using read_lines_concat [OF that]
    by (simp add: loadGitignorePatterns_def gitignore_loop_eq)
  show "contributes line = (line \<noteq> [] \<and> hd line \<noteq> CHR ''#'')"
    by (cases line) (simp_all add: contributes_def)
  show "strip_leading_slash line =
          (if line \<noteq> [] \<and> hd line = CHR ''/'' then tl line else line)"
    by (cases line) (simp_all add: strip_leading_slash_def)
  show "parse_args (concat (map (\<lambda>p. [''-i'', p]) cli)) dir [] = Parsed dir cli"
    using parse_args_ignore_flags [of cli dir "[]"] by simp
qed

theorem loadGitignorePatterns_exact_witness:
  "loadGitignorePatterns
     (Readable (''# comment'' @ [newline] @ ''/build'' @ [newline] @ [newline]
                @ ''*.o'' @ [newline]))
     [''*.sh'', ''tmp'']
   = [''*.sh'', ''tmp'', ''build'', ''*.o'']"
proof -
  have nl: "\<forall>l\<in>set [''# comment'', ''/build'', [], ''*.o'']. newline \<notin> set l"
    by (simp add: newline_def)
  show ?thesis
    using loadGitignorePatterns_exact
      [where ls = "[''# comment'', ''/build'', [], ''*.o'']" and cli = "[''*.sh'', ''tmp'']"
        and found = Missing and line = "[]" and dir = "[]"] nl
    by (simp add: contributes_def strip_leading_slash_def)
qed

section \<open>The walker and the parser\<close>

lemma build_matches: "wildcardMatch ''build'' ''build''"
  by code_simp

lemma wildcardMatch_empty_pattern: "wildcardMatch name [] \<longleftrightarrow> name = []"
  by (simp add: wildcardMatch_iff pattern_matches_Nil)

lemma rel_path_nonempty: "name \<noteq> [] \<Longrightarrow> rel_path rel_dir name \<noteq> []"
  by (simp add: rel_path_def)





lemma walk_same_decisions:
  "\<forall>s. s \<noteq> [] \<longrightarrow> matchesAnyPattern s Q = matchesAnyPattern s P \<Longrightarrow> named e \<Longrightarrow>
     walk_entry P rd e st = walk_entry Q rd e st"
  "\<forall>s. s \<noteq> [] \<longrightarrow> matchesAnyPattern s Q = matchesAnyPattern s P \<Longrightarrow> list_all named es \<Longrightarrow>
     walk_entries P rd es st = walk_entries Q rd es st"
proof (induction P rd e st and P rd es st rule: walk_entry_walk_entries.induct)
  case (1 patterns rel_dir dirName children st)
  then show ?case
    by (cases "matchesAnyPattern dirName patterns") simp_all
next
  case (2 patterns rel_dir filename probe reread st)
  then have "filename \<noteq> []" "rel_path rel_dir filename \<noteq> []"
    by (simp_all add: rel_path_nonempty)
  then show ?case
    using "2.prems"(1) by (simp add: dump_file_def)
next
  case (3 patterns rel_dir filename target probe reread st)
  then have "filename \<noteq> []" "target \<noteq> []"
    by simp_all
  then show ?case
    using "3.prems"(1) by (simp add: dump_file_def)
next
  case (4 patterns rel_dir st)
  show ?case by simp
next
  case (5 patterns rel_dir entry entries st)
  then show ?case by simp
qed

lemma parse_args_append:
  "parse_args before d ps = Parsed d' ps' \<Longrightarrow>
     parse_args (before @ rest) d ps = parse_args rest d' ps'"
proof (induction before d ps rule: parse_args.induct)
  case (1 targetDir ignorePatterns)
  then show ?case by simp
next
  case (2 arg more targetDir ignorePatterns)
  show ?case
  proof (cases "more = []")
    case True
    then show ?thesis using "2.prems" by (auto split: if_splits)
  next
    case False
    then have "more @ rest \<noteq> []" "tl (more @ rest) = tl more @ rest"
      "hd (more @ rest) = hd more"
      by simp_all
    then show ?thesis
      using False "2.prems" "2.IH" by (auto split: if_splits)
  qed
qed

lemma dump_file_accessed:
  "\<exists>acc. \<forall>s. accessed (dump_file ps rel name probe reread s) = accessed s @ acc"
proof (cases "matchesAnyPattern rel ps \<or> matchesAnyPattern name ps")
  case True
  then have "\<forall>s. accessed (dump_file ps rel name probe reread s) = accessed s @ []"
    by (auto simp: dump_file_def)
  then show ?thesis by (rule exI)
next
  case False
  show ?thesis
  proof (cases "isTextFile probe")
    case True
    then have "\<forall>s. accessed (dump_file ps rel name probe reread s) =
                 accessed s @ [Classify rel, ReadContent rel]"
      using False by (simp add: dump_file_def Let_def split: option.splits)
    then show ?thesis by (rule exI)
  next
    case nt: False
    then have "\<forall>s. accessed (dump_file ps rel name probe reread s) = accessed s @ [Classify rel]"
      using False by (simp add: dump_file_def Let_def)
    then show ?thesis by (rule exI)
  qed
qed

lemma walk_accessed:
  "\<exists>acc. \<forall>s. accessed (walk_entry ps rd e s) = accessed s @ acc"
  "\<exists>acc. \<forall>s. accessed (walk_entries ps rd es s) = accessed s @ acc"
proof (induction ps rd e "st :: dump_state" and ps rd es "st :: dump_state"
    rule: walk_entry_walk_entries.induct)
  case (1 patterns rel_dir dirName children st)
  then show ?case
    by (cases "matchesAnyPattern dirName patterns") simp_all
next
  case (2 patterns rel_dir filename probe reread st)
  show ?case using dump_file_accessed by simp
next
  case (3 patterns rel_dir filename target probe reread st)
  show ?case using dump_file_accessed by simp
next
  case (4 patterns rel_dir st)
  have "\<forall>s. accessed (walk_entries patterns rel_dir [] s) = accessed s @ []" by simp
  then show ?case by (rule exI)
next
  case (5 patterns rel_dir entry entries st)
  obtain a1 where a1: "\<And>s. accessed (walk_entry patterns rel_dir entry s) = accessed s @ a1"
    using "5.IH"(1) by blast
  obtain a2 where a2: "\<And>s. accessed (walk_entries patterns rel_dir entries s) = accessed s @ a2"
    using "5.IH"(2) by blast
  have "\<forall>s. accessed (walk_entries patterns rel_dir (entry # entries) s) = accessed s @ (a1 @ a2)"
    by (simp add: a1 a2)
  then show ?case by (rule exI)
qed

section \<open>Directories whose name matches\<close>

text \<open>
  C3 does not hold of the code. It says that a directory below the scan root whose bare
  name matches the pattern set is pruned with its whole subtree, so that for a root
  holding \<open>build/keep.txt\<close> and the ignore pattern \<open>build\<close> the file \<open>keep.txt\<close> never
  appears in the output. In the code the call of line 152 reaches no iterator, so the
  walker enters a directory whether or not its name matches; in that root the name
  \<open>build\<close> matches, the walker descends all the same, neither \<open>build/keep.txt\<close> nor
  \<open>keep.txt\<close> matches the pattern, and the file is classified, read and printed.
\<close>

theorem matched_directory_not_pruned:
  "walk_entry patterns rel_dir (Dir dirName children) st =
     walk_entries patterns (rel_path rel_dir dirName) children st \<and>
   matchesAnyPattern ''build'' [''build''] \<and>
   dumpDirectory ''/w'' [''build''] [Dir ''build'' [File ''keep.txt'' (Some ''k'') (Some ''k'')]] =
     \<lparr>printed = ''<file path='' @ [CHR 0x22] @ ''build/keep.txt'' @ [CHR 0x22] @ ''>''
        @ [CHR 0x0A] @ ''k'' @ [CHR 0x0A] @ ''</file>'' @ [CHR 0x0A, CHR 0x0A],
      accessed = [ScanDir ''/w'', Classify ''build/keep.txt'', ReadContent ''build/keep.txt'']\<rparr>"
proof (intro conjI)
  show "walk_entry patterns rel_dir (Dir dirName children) st =
     walk_entries patterns (rel_path rel_dir dirName) children st"
    by simp
  show "matchesAnyPattern ''build'' [''build'']"
    using build_matches by simp
  have e: "\<not> wildcardMatch ''build/keep.txt'' ''build''" "\<not> wildcardMatch ''keep.txt'' ''build''"
    by code_simp+
  have t: "isTextFile (Some ''k'')"
    by (simp add: isTextFile_def CHUNK_SIZE_def uchar_def)
  have p: "rel_path ''build'' ''keep.txt'' = ''build/keep.txt''" "rel_path [] ''build'' = ''build''"
    by (simp_all add: rel_path_def)
  show "dumpDirectory ''/w'' [''build''] [Dir ''build'' [File ''keep.txt'' (Some ''k'') (Some ''k'')]] =
     \<lparr>printed = ''<file path='' @ [CHR 0x22] @ ''build/keep.txt'' @ [CHR 0x22] @ ''>''
        @ [CHR 0x0A] @ ''k'' @ [CHR 0x0A] @ ''</file>'' @ [CHR 0x0A, CHR 0x0A],
      accessed = [ScanDir ''/w'', Classify ''build/keep.txt'', ReadContent ''build/keep.txt'']\<rparr>"
    using e t by (simp add: dumpDirectory_def p dump_file_def file_block_def newline_def)
qed

section \<open>What the walker does with a file\<close>

text \<open>
  C4 as stated fails: a file that the classifier deems text and that does not open for
  the content read (line 175) gives no output at all.
\<close>

theorem text_file_without_block:
  "\<not> matchesAnyPattern ''a.txt'' [] \<and> isTextFile (Some ''hi'') \<and>
   printed (walk_entry [] [] (File ''a.txt'' (Some ''hi'') None) \<lparr>printed = [], accessed = []\<rparr>)
     = []"
  by (simp add: dump_file_def rel_path_def isTextFile_def CHUNK_SIZE_def uchar_def)

text \<open>
  C4, amended. For every file entry reached by the walker, its relative path is what
  \<open>fs::relative\<close> gives for it: the names from the scan root down to the entry joined
  by \<open>/\<close>, and for a symbolic link the path of the link's target. If the relative path
  or the bare name matches the pattern set, the file is skipped entirely: nothing is
  printed, the classifier is not called and the file is not opened. Otherwise the
  classifier is called; if it deems the file text and the file opens for the content
  read, the output grows by exactly the opening tag line with the relative path, the
  content verbatim followed by a newline, the closing tag line and one empty line; if
  it does not open, nothing is printed.
\<close>

theorem file_entry_output:
  "(matchesAnyPattern (rel_path rel_dir filename) patterns \<or> matchesAnyPattern filename patterns
      \<longrightarrow> walk_entry patterns rel_dir (File filename probe reread) st = st) \<and>
   (\<not> matchesAnyPattern (rel_path rel_dir filename) patterns \<and>
    \<not> matchesAnyPattern filename patterns \<and> isTextFile probe \<and> reread = Some content
      \<longrightarrow> walk_entry patterns rel_dir (File filename probe reread) st =
          \<lparr>printed = printed st
             @ ''<file path='' @ [CHR 0x22] @ rel_path rel_dir filename @ [CHR 0x22] @ ''>''
             @ [CHR 0x0A] @ content @ [CHR 0x0A] @ ''</file>'' @ [CHR 0x0A] @ [CHR 0x0A],
           accessed = accessed st
             @ [Classify (rel_path rel_dir filename), ReadContent (rel_path rel_dir filename)]\<rparr>) \<and>
   (\<not> matchesAnyPattern (rel_path rel_dir filename) patterns \<and>
    \<not> matchesAnyPattern filename patterns \<and> isTextFile probe \<and> reread = None
      \<longrightarrow> printed (walk_entry patterns rel_dir (File filename probe reread) st) = printed st) \<and>
   (matchesAnyPattern target patterns \<or> matchesAnyPattern filename patterns
      \<longrightarrow> walk_entry patterns rel_dir (Link filename target probe reread) st = st) \<and>
   (\<not> matchesAnyPattern target patterns \<and>
    \<not> matchesAnyPattern filename patterns \<and> isTextFile probe \<and> reread = Some content
      \<longrightarrow> walk_entry patterns rel_dir (Link filename target probe reread) st =
          \<lparr>printed = printed st
             @ ''<file path='' @ [CHR 0x22] @ target @ [CHR 0x22] @ ''>''
             @ [CHR 0x0A] @ content @ [CHR 0x0A] @ ''</file>'' @ [CHR 0x0A] @ [CHR 0x0A],
           accessed = accessed st @ [Classify target, ReadContent target]\<rparr>) \<and>
   (\<not> matchesAnyPattern target patterns \<and>
    \<not> matchesAnyPattern filename patterns \<and> isTextFile probe \<and> reread = None
      \<longrightarrow> printed (walk_entry patterns rel_dir (Link filename target probe reread) st)
            = printed st)"
  by (simp add: dump_file_def file_block_def newline_def)

theorem file_entry_output_witness:
  "walk_entry [''*.bin''] ''src'' (File ''b.bin'' (Some ''x'') (Some ''x''))
     \<lparr>printed = ''out'', accessed = []\<rparr> = \<lparr>printed = ''out'', accessed = []\<rparr> \<and>
   walk_entry [''*.bin''] ''src'' (File ''m.c'' (Some ''int x;'') (Some ''int x;''))
     \<lparr>printed = ''out'', accessed = []\<rparr> =
     \<lparr>printed = ''out'' @ ''<file path='' @ [CHR 0x22] @ ''src/m.c'' @ [CHR 0x22] @ ''>''
        @ [CHR 0x0A] @ ''int x;'' @ [CHR 0x0A] @ ''</file>'' @ [CHR 0x0A] @ [CHR 0x0A],
      accessed = [Classify ''src/m.c'', ReadContent ''src/m.c'']\<rparr> \<and>
   walk_entry [''*.bin''] ''src'' (Link ''l.c'' ''../o/r.c'' (Some ''int x;'') (Some ''int x;''))
     \<lparr>printed = ''out'', accessed = []\<rparr> =
     \<lparr>printed = ''out'' @ ''<file path='' @ [CHR 0x22] @ ''../o/r.c'' @ [CHR 0x22] @ ''>''
        @ [CHR 0x0A] @ ''int x;'' @ [CHR 0x0A] @ ''</file>'' @ [CHR 0x0A] @ [CHR 0x0A],
      accessed = [Classify ''../o/r.c'', ReadContent ''../o/r.c'']\<rparr> \<and>
   walk_entry [''*.bin''] ''src'' (Link ''l.c'' ''../o/r.bin'' (Some ''int x;'') (Some ''int x;''))
     \<lparr>printed = ''out'', accessed = []\<rparr> = \<lparr>printed = ''out'', accessed = []\<rparr>"
proof -
  have e: "wildcardMatch ''b.bin'' ''*.bin''" "\<not> wildcardMatch ''src/m.c'' ''*.bin''"
    "\<not> wildcardMatch ''m.c'' ''*.bin''" "\<not> wildcardMatch ''../o/r.c'' ''*.bin''"
    "\<not> wildcardMatch ''l.c'' ''*.bin''" "wildcardMatch ''../o/r.bin'' ''*.bin''"
    by code_simp+
  have t: "isTextFile (Some ''int x;'')"
    by (simp add: isTextFile_def CHUNK_SIZE_def uchar_def)
  have p: "rel_path ''src'' ''m.c'' = ''src/m.c''" by (simp add: rel_path_def)
  show ?thesis
    using file_entry_output
      [where patterns = "[''*.bin'']" and rel_dir = "''src''" and filename = "''b.bin''"
        and probe = "Some ''x''" and reread = "Some ''x''"
        and st = "\<lparr>printed = ''out'', accessed = []\<rparr>" and content = "''x''"
        and target = "[]"]
      file_entry_output
      [where patterns = "[''*.bin'']" and rel_dir = "''src''" and filename = "''m.c''"
        and probe = "Some ''int x;''" and reread = "Some ''int x;''"
        and st = "\<lparr>printed = ''out'', accessed = []\<rparr>" and content = "''int x;''"
        and target = "[]"]
      file_entry_output
      [where patterns = "[''*.bin'']" and rel_dir = "''src''" and filename = "''l.c''"
        and probe = "Some ''int x;''" and reread = "Some ''int x;''"
        and st = "\<lparr>printed = ''out'', accessed = []\<rparr>" and content = "''int x;''"
        and target = "''../o/r.c''"]
      file_entry_output
      [where patterns = "[''*.bin'']" and rel_dir = "''src''" and filename = "''l.c''"
        and probe = "Some ''int x;''" and reread = "Some ''int x;''"
        and st = "\<lparr>printed = ''out'', accessed = []\<rparr>" and content = "''int x;''"
        and target = "''../o/r.bin''"]
      e t p
    by simp
qed

section \<open>Failures that are skipped\<close>





section \<open>The command line\<close>

text \<open>
  C8 as stated fails: with \<open>-h\<close> before it, a final \<open>-d\<close> that has no value is never
  looked at; the program prints the usage text and exits with code 0 and nothing on
  standard error.
\<close>

theorem help_before_dangling_flag:
  "exit_code (main ''dump'' [''-h'', ''-d''] ''/'' []) = 0 \<and>
   stderr (main ''dump'' [''-h'', ''-d''] ''/'' []) = []"
  by (simp add: main_def)

text \<open>
  C8, amended. When the arguments before it are read without ending the run (no
  \<open>-h\<close>/\<open>--help\<close> and no unrecognized argument among them) and leave \<open>-d\<close>, \<open>--dir\<close>,
  \<open>-i\<close> or \<open>--ignore\<close> as the last argument in option position, with no value after
  it, the program writes \<open>Unrecognized option:\<close> and the flag to standard error, prints
  the usage text, exits with code 1 and touches no directory.
\<close>

theorem dangling_flag_is_error:
  assumes "parse_args before cwd [] = Parsed dir cli"
    and "flag = ''-d'' \<or> flag = ''--dir'' \<or> flag = ''-i'' \<or> flag = ''--ignore''"
  shows "main prog (before @ [flag]) cwd paths =
           \<lparr>exit_code = 1, stdout = printUsage prog,
            stderr = ''Unrecognized option: '' @ flag @ [CHR 0x0A], accesses = []\<rparr>"
proof -
  have "parse_args (before @ [flag]) cwd [] = parse_args [flag] dir cli"
    using assms(1) by (rule parse_args_append)
  also have "\<dots> = Unrecognized flag"
    using assms(2) by auto
  finally show ?thesis by (simp add: main_def newline_def)
qed

theorem dangling_flag_is_error_witness:
  "main ''dump'' ([''-i'', ''*.o''] @ [''--dir'']) ''/w'' [(''/w'', Directory Missing [])] =
     \<lparr>exit_code = 1, stdout = printUsage ''dump'',
      stderr = ''Unrecognized option: '' @ ''--dir'' @ [CHR 0x0A], accesses = []\<rparr>"
proof -
  have "parse_args [''-i'', ''*.o''] ''/w'' [] = Parsed ''/w'' [''*.o'']" by simp
  then show ?thesis
    by (rule dangling_flag_is_error) simp
qed

text \<open>
  C10. The token after \<open>-d\<close>/\<open>--dir\<close> or \<open>-i\<close>/\<open>--ignore\<close> is taken as the flag's value
  whatever it is, also when it is itself a flag: the arguments \<open>-i --help\<close> give the
  pattern list \<open>--help\<close>, and the run neither prints the usage text nor stops early: on
  a scan root that is a directory it scans with that pattern and exits with code 0.
\<close>

theorem flag_value_consumed:
  "(flag = ''-i'' \<or> flag = ''--ignore'' \<longrightarrow>
      parse_args (flag # v # rest) dir cli = parse_args rest dir (cli @ [v])) \<and>
   (flag = ''-d'' \<or> flag = ''--dir'' \<longrightarrow>
      parse_args (flag # v # rest) dir cli = parse_args rest v cli) \<and>
   parse_args [''-i'', ''--help''] dir [] = Parsed dir [''--help''] \<and>
   (map_of paths cwd = Some (Directory found entries) \<longrightarrow>
      main prog [''-i'', ''--help''] cwd paths =
        \<lparr>exit_code = 0,
         stdout = printed (dumpDirectory cwd (loadGitignorePatterns found [''--help'']) entries),
         stderr = [],
         accesses = accessed (dumpDirectory cwd (loadGitignorePatterns found [''--help'']) entries)\<rparr>
      \<and> accesses (main prog [''-i'', ''--help''] cwd paths) \<noteq> [])"
proof (intro conjI impI)
  show "parse_args (flag # v # rest) dir cli = parse_args rest dir (cli @ [v])"
    if "flag = ''-i'' \<or> flag = ''--ignore''"
    using that by auto
  show "parse_args (flag # v # rest) dir cli = parse_args rest v cli"
    if "flag = ''-d'' \<or> flag = ''--dir''"
    using that by auto
  show "parse_args [''-i'', ''--help''] dir [] = Parsed dir [''--help'']" by simp
next
  assume a: "map_of paths cwd = Some (Directory found entries)"
  then show m: "main prog [''-i'', ''--help''] cwd paths =
        \<lparr>exit_code = 0,
         stdout = printed (dumpDirectory cwd (loadGitignorePatterns found [''--help'']) entries),
         stderr = [],
         accesses = accessed (dumpDirectory cwd (loadGitignorePatterns found [''--help'']) entries)\<rparr>"
    by (simp add: main_def Let_def)
  obtain acc where "\<And>s. accessed (walk_entries (loadGitignorePatterns found [''--help'']) [] entries s)
      = accessed s @ acc"
    using walk_accessed(2) [of "loadGitignorePatterns found [''--help'']" "[]" entries] by blast
  then show "accesses (main prog [''-i'', ''--help''] cwd paths) \<noteq> []"
    unfolding m by (simp add: dumpDirectory_def)
qed

theorem flag_value_consumed_witness:
  "parse_args (''--dir'' # ''-h'' # [''-i'', ''-d'']) ''/'' [] = Parsed ''-h'' [''-d''] \<and>
   main ''dump'' [''-i'', ''--help''] ''/w''
     [(''/w'', Directory Missing [File ''--help'' (Some ''x'') (Some ''x''),
                                  File ''a'' (Some ''hi'') (Some ''hi'')])] =
     \<lparr>exit_code = 0,
      stdout = ''<file path='' @ [CHR 0x22] @ ''a'' @ [CHR 0x22] @ ''>'' @ [CHR 0x0A] @ ''hi''
               @ [CHR 0x0A] @ ''</file>'' @ [CHR 0x0A, CHR 0x0A],
      stderr = [],
      accesses = [ScanDir ''/w'', Classify ''a'', ReadContent ''a'']\<rparr>"
proof -
  have e: "wildcardMatch ''--help'' ''--help''" "\<not> wildcardMatch ''a'' ''--help''"
    by code_simp+
  have t: "isTextFile (Some ''hi'')"
    by (simp add: isTextFile_def CHUNK_SIZE_def uchar_def)
  have "parse_args (''--dir'' # ''-h'' # [''-i'', ''-d'']) ''/'' [] =
        parse_args [''-i'', ''-d''] ''-h'' []"
    using flag_value_consumed [where flag = "''--dir''" and v = "''-h''"
        and rest = "[''-i'', ''-d'']" and dir = "''/''" and cli = "[]"]
    by blast
  moreover have "main ''dump'' [''-i'', ''--help''] ''/w''
     [(''/w'', Directory Missing [File ''--help'' (Some ''x'') (Some ''x''),
                                  File ''a'' (Some ''hi'') (Some ''hi'')])] =
     \<lparr>exit_code = 0,
      stdout = printed (dumpDirectory ''/w'' (loadGitignorePatterns Missing [''--help''])
                 [File ''--help'' (Some ''x'') (Some ''x''), File ''a'' (Some ''hi'') (Some ''hi'')]),
      stderr = [],
      accesses = accessed (dumpDirectory ''/w'' (loadGitignorePatterns Missing [''--help''])
                 [File ''--help'' (Some ''x'') (Some ''x''), File ''a'' (Some ''hi'') (Some ''hi'')])\<rparr>"
    using flag_value_consumed [where paths = "[(''/w'', Directory Missing
          [File ''--help'' (Some ''x'') (Some ''x''), File ''a'' (Some ''hi'') (Some ''hi'')])]"
        and cwd = "''/w''" and found = Missing and prog = "''dump''"
        and entries = "[File ''--help'' (Some ''x'') (Some ''x''),
                        File ''a'' (Some ''hi'') (Some ''hi'')]"]
    by simp
  ultimately show ?thesis
    using e t
    by (simp add: dumpDirectory_def loadGitignorePatterns_def dump_file_def rel_path_def
        file_block_def newline_def)
qed

section \<open>An ignore-file line that is a lone slash\<close>

lemma empty_pattern_no_effect:
  "name \<noteq> [] \<Longrightarrow> matchesAnyPattern name (ps @ [[]] @ qs) = matchesAnyPattern name (ps @ qs)"
  by (auto simp: matchesAnyPattern_iff wildcardMatch_empty_pattern)

text \<open>
  C9. An ignore-file line that is just \<open>/\<close> is stripped to the empty string and added
  to the pattern list as an empty pattern, at the place of the line. The empty pattern
  matches only the empty text, so for a name that is not empty the pattern list decides
  as it does without it, and on a tree whose entries all have names the run with the
  empty pattern in the list is the run without it: the line excludes no file and no
  directory.
\<close>

theorem lone_slash_line:
  "loadGitignorePatterns (Readable (''/'' @ [newline])) cli = cli @ [[]] \<and>
   loadGitignorePatterns (Readable ''/'') cli = cli @ [[]] \<and>
   gitignore_loop (before @ [''/''] @ after) cli =
     gitignore_loop before cli @ [[]] @ gitignore_loop after [] \<and>
   (name \<noteq> [] \<longrightarrow>
      \<not> wildcardMatch name [] \<and>
      matchesAnyPattern name (ps @ [[]] @ qs) = matchesAnyPattern name (ps @ qs)) \<and>
   (list_all named entries \<longrightarrow>
      dumpDirectory directory (ps @ [[]] @ qs) entries = dumpDirectory directory (ps @ qs) entries)"
proof (intro conjI impI)
  have nl: "newline \<notin> set ''/''" by (simp add: newline_def)
  have "read_lines (''/'' @ newline # []) = [''/'']"
    using read_lines_terminated [OF nl, of "[]"] by (simp add: read_lines_Nil)
  then show "loadGitignorePatterns (Readable (''/'' @ [newline])) cli = cli @ [[]]"
    by (simp add: loadGitignorePatterns_def)
  have "read_lines ''/'' = [''/'']"
    using read_lines_last [OF nl] by simp
  then show "loadGitignorePatterns (Readable ''/'') cli = cli @ [[]]"
    by (simp add: loadGitignorePatterns_def)
  show "gitignore_loop (before @ [''/''] @ after) cli =
     gitignore_loop before cli @ [[]] @ gitignore_loop after []"
    by (simp add: gitignore_loop_eq contributes_def strip_leading_slash_def)
next
  assume "name \<noteq> []"
  then show "\<not> wildcardMatch name []" by (simp add: wildcardMatch_empty_pattern)
  show "matchesAnyPattern name (ps @ [[]] @ qs) = matchesAnyPattern name (ps @ qs)"
    using \<open>name \<noteq> []\<close> by (rule empty_pattern_no_effect)
next
  assume "list_all named entries"
  moreover have "\<forall>s. s \<noteq> [] \<longrightarrow>
      matchesAnyPattern s (ps @ qs) = matchesAnyPattern s (ps @ [[]] @ qs)"
    using empty_pattern_no_effect by simp
  ultimately show "dumpDirectory directory (ps @ [[]] @ qs) entries =
      dumpDirectory directory (ps @ qs) entries"
    unfolding dumpDirectory_def by (rule walk_same_decisions(2) [rotated])
qed

theorem lone_slash_line_witness:
  "\<not> wildcardMatch ''a.txt'' [] \<and>
   matchesAnyPattern ''a.txt'' ([''*.o''] @ [[]] @ [''*.txt'']) =
     matchesAnyPattern ''a.txt'' ([''*.o''] @ [''*.txt'']) \<and>
   dumpDirectory ''/w'' ([''*.o''] @ [[]] @ [])
     [Dir ''src'' [File ''a.txt'' (Some ''hi'') (Some ''hi'')]] =
   dumpDirectory ''/w'' ([''*.o''] @ [])
     [Dir ''src'' [File ''a.txt'' (Some ''hi'') (Some ''hi'')]]"
proof -
  have n: "''a.txt'' \<noteq> []" by simp
  have t: "list_all named [Dir ''src'' [File ''a.txt'' (Some ''hi'') (Some ''hi'')]]"
    by simp
  have a: "\<not> wildcardMatch ''a.txt'' [] \<and>
     matchesAnyPattern ''a.txt'' ([''*.o''] @ [[]] @ [''*.txt'']) =
       matchesAnyPattern ''a.txt'' ([''*.o''] @ [''*.txt''])"
    using lone_slash_line [where name = "''a.txt''" and ps = "[''*.o'']" and qs = "[''*.txt'']"] n
    by blast
  have b: "dumpDirectory ''/w'' ([''*.o''] @ [[]] @ [])
     [Dir ''src'' [File ''a.txt'' (Some ''hi'') (Some ''hi'')]] =
   dumpDirectory ''/w'' ([''*.o''] @ [])
     [Dir ''src'' [File ''a.txt'' (Some ''hi'') (Some ''hi'')]]"
    using lone_slash_line [where ps = "[''*.o'']" and qs = "[]" and directory = "''/w''"
        and entries = "[Dir ''src'' [File ''a.txt'' (Some ''hi'') (Some ''hi'')]]"] t
    by blast
  show ?thesis using a b by blast
qed

end
